theory Spec2Isabelle
  imports Complex_Main "HOL-Library.Word" "HOL-Library.List_Lexorder" "HOL-Library.Multiset"
begin

section \<open>The structural hashing engine of aiida/common/hashing.py\<close>

text \<open>
  The development embeds \<^verbatim>\<open>make_hash\<close> and the handlers registered on
  \<^verbatim>\<open>_make_hash\<close>. Names follow the source; a leading underscore is dropped
  (\<^verbatim>\<open>_single_digest\<close> is \<open>single_digest\<close>, \<^verbatim>\<open>_END_DIGEST\<close> is
  \<open>END_DIGEST\<close>) and \<^verbatim>\<open>_make_hash\<close> is \<open>make_hash_impl\<close>.

  What the module imports and does not define is a parameter of every definition, collected
  in the record \<open>pylib\<close>: the BLAKE2b function of hashlib, the \<^verbatim>\<open>'{:.Ng}'\<close>
  rendering of a float, the constant \<^verbatim>\<open>AIIDA_FLOAT_PRECISION\<close> and the flag
  \<^verbatim>\<open>six.PY2\<close>. Unless the flag says otherwise the semantics is that of Python 3, in
  the releases the module was written for: an integer of any size is rendered in decimal, and
  a \<^verbatim>\<open>Fraction\<close> takes no float format. The limits of the interpreter (recursion
  depth, memory) are not modelled: a value is a finite tree and every walk of it ends.
\<close>

subsection \<open>Bytes, text and errors\<close>

type_synonym byte = "8 word"
type_synonym bytes = "byte list"

text \<open>A Python 3 \<^verbatim>\<open>str\<close> is a sequence of code points.\<close>

type_synonym pystr = "nat list"

text \<open>
  The errors a call can end with: \<^verbatim>\<open>ValueError\<close> with the name of a type that has no
  handler, \<^verbatim>\<open>UnicodeEncodeError\<close> from an encoding, \<^verbatim>\<open>TypeError\<close> from a
  format, and \<^verbatim>\<open>IOError\<close> from the listing of a folder or the reading of a file.
\<close>

datatype error = ValueError string | UnicodeEncodeError | TypeError | IOError

text \<open>The keyword arguments of one \<^verbatim>\<open>blake2b(...)\<close> call.\<close>

record blake2b_args =
  data :: bytes
  person :: bytes
  node_depth :: nat
  last_node :: bool
  fanout :: nat
  depth :: nat
  digest_size :: nat
  inner_size :: nat

record pylib =
  blake2b :: "blake2b_args \<Rightarrow> bytes"
  format_g :: "nat \<Rightarrow> real \<Rightarrow> string"
  AIIDA_FLOAT_PRECISION :: nat
  PY2 :: bool

text \<open>
  \<^verbatim>\<open>BLAKE2B_OPTIONS\<close>, passed to every call: unlimited fanout, depth 2, a digest of
  32 bytes and an inner size of 64.
\<close>

definition BLAKE2B_OPTIONS :: "bytes \<Rightarrow> bytes \<Rightarrow> nat \<Rightarrow> bool \<Rightarrow> blake2b_args" where
  "BLAKE2B_OPTIONS dat pers ndepth lastn =
     \<lparr>data = dat, person = pers, node_depth = ndepth, last_node = lastn,
      fanout = 0, depth = 2, digest_size = 32, inner_size = 64\<rparr>"

text \<open>\<^verbatim>\<open>obj_type.encode('ascii')\<close> on a tag, and \<^verbatim>\<open>.encode('utf-8')\<close> on rendered
  numbers, which are ASCII.\<close>

definition ascii :: "string \<Rightarrow> bytes" where
  "ascii s = map (\<lambda>c. of_nat (of_char c)) s"

text \<open>
  \<^verbatim>\<open>val.encode('utf-8')\<close> on text: Python 3 refuses a surrogate code point
  (U+D800 to U+DFFF) with \<^verbatim>\<open>UnicodeEncodeError\<close>. A \<^verbatim>\<open>str\<close> holds no code point
  above U+10FFFF; the model refuses those as well.
\<close>

definition utf8_char :: "nat \<Rightarrow> bytes option" where
  "utf8_char c =
     (if c < 0x80 then Some [of_nat c]
      else if c < 0x800 then Some [of_nat (0xC0 + c div 64), of_nat (0x80 + c mod 64)]
      else if 0xD800 \<le> c \<and> c \<le> 0xDFFF then None
      else if c < 0x10000 then
        Some [of_nat (0xE0 + c div 4096), of_nat (0x80 + (c div 64) mod 64), of_nat (0x80 + c mod 64)]
      else if c < 0x110000 then
        Some [of_nat (0xF0 + c div 262144), of_nat (0x80 + (c div 4096) mod 64),
              of_nat (0x80 + (c div 64) mod 64), of_nat (0x80 + c mod 64)]
      else None)"

fun utf8_encode :: "pystr \<Rightarrow> error + bytes" where
  "utf8_encode [] = Inr []"
| "utf8_encode (c # cs) =
     (case utf8_char c of
        None \<Rightarrow> Inl UnicodeEncodeError
      | Some b \<Rightarrow> (case utf8_encode cs of Inl e \<Rightarrow> Inl e | Inr bs \<Rightarrow> Inr (b @ bs)))"

text \<open>\<^verbatim>\<open>u"{}".format(val)\<close> on an integer: its decimal digits, with a minus sign.\<close>

definition digit_char :: "nat \<Rightarrow> char" where
  "digit_char d = char_of (48 + d)"

fun nat_digits :: "nat \<Rightarrow> string" where
  "nat_digits n = (if n < 10 then [digit_char n] else nat_digits (n div 10) @ [digit_char (n mod 10)])"

definition int_to_text :: "int \<Rightarrow> string" where
  "int_to_text i = (if i < 0 then CHR ''-'' # nat_digits (nat (- i)) else nat_digits (nat i))"

text \<open>\<^verbatim>\<open>hexdigest()\<close>: two lowercase hexadecimal digits for each byte.\<close>

definition hex_digit :: "nat \<Rightarrow> char" where
  "hex_digit n = (if n < 10 then char_of (48 + n) else char_of (87 + n))"

definition hexdigest :: "bytes \<Rightarrow> string" where
  "hexdigest bs = concat (map (\<lambda>b. [hex_digit (unat b div 16), hex_digit (unat b mod 16)]) bs)"

subsection \<open>Values\<close>

text \<open>
  A \<^verbatim>\<open>datetime\<close> is the reading of its wall clock, counted in microseconds from
  1970-01-01T00:00:00, and its \<^verbatim>\<open>tzinfo\<close>, which is absent for a naive value. A
  \<^verbatim>\<open>tzinfo\<close> answers \<^verbatim>\<open>utcoffset()\<close> with a number of microseconds or with
  \<^verbatim>\<open>None\<close>.
\<close>

datatype tzinfo = TZ "int option"

record datetime =
  wall :: int
  tzinfo :: "tzinfo option"

definition pytz_utc :: tzinfo where
  "pytz_utc = TZ (Some 0)"

fun utcoffset :: "datetime \<Rightarrow> int option" where
  "utcoffset d = (case tzinfo d of None \<Rightarrow> None | Some (TZ off) \<Rightarrow> off)"

text \<open>
  Modelled from the spec: the class \<^verbatim>\<open>Folder\<close> of aiida/common/folders.py, which is not
  among the sources. A folder is a recursive tree of named files and subfolders; what
  \<^verbatim>\<open>get_content_list\<close> returns is the list of its entries in the order the file system
  lists them, \<^verbatim>\<open>open(name).read()\<close> is the bytes of a file and
  \<^verbatim>\<open>get_subfolder(name)\<close> the entries of a subfolder. Traversal can fail on a
  permission error or a missing path: \<open>UnreadableFile\<close> is a file whose opening or reading
  raises, \<open>UnlistableDir\<close> a subfolder that cannot be reached or listed.
\<close>

datatype entry = File bytes | Dir "(pystr \<times> entry) list" | UnreadableFile | UnlistableDir

text \<open>
  A value of a type registered as \<^verbatim>\<open>numbers.Real\<close> and not as
  \<^verbatim>\<open>numbers.Integral\<close>: a Python float, or a \<^verbatim>\<open>fractions.Fraction\<close> with its
  numerator and denominator.
\<close>

datatype pyreal = PyFloat real | PyFraction int int

text \<open>
  One constructor for each runtime type the dispatch tells apart: \<open>VList\<close>, \<open>VTuple\<close> and
  \<open>VByteArray\<close> reach the handler of \<^verbatim>\<open>abc.Sequence\<close>, \<open>VSet\<close> that of
  \<^verbatim>\<open>abc.Set\<close> (the list is the iteration order), \<open>VDict\<close> that of
  \<^verbatim>\<open>abc.Mapping\<close> (the list is \<^verbatim>\<open>items()\<close>), \<open>VFloat\<close> and \<open>VFraction\<close> that
  of \<^verbatim>\<open>numbers.Real\<close>, \<open>VFolder\<close> and \<open>VUnlistableFolder\<close> that of
  \<^verbatim>\<open>Folder\<close> (the second is a folder whose own listing raises), and \<open>VObject\<close> is a
  value of any other type, with the name of that type.
\<close>

datatype pyvalue =
    VBytes bytes
  | VStr pystr
  | VList "pyvalue list"
  | VTuple "pyvalue list"
  | VByteArray bytes
  | VSet "pyvalue list"
  | VDict "(pyvalue \<times> pyvalue) list"
  | VOrderedDict "(pyvalue \<times> pyvalue) list"
  | VFloat real
  | VFraction int int
  | VComplex real real
  | VInt int
  | VBool bool
  | VNone
  | VDatetime datetime
  | VUUID bytes
  | VFolder "(pystr \<times> entry) list"
  | VUnlistableFolder
  | VObject string

text \<open>
  The keyword arguments of \<^verbatim>\<open>make_hash\<close>. Two are read, with
  \<^verbatim>\<open>kwargs.get('odict_as_unordered', False)\<close> and
  \<^verbatim>\<open>kwargs.get('ignored_folder_content', [])\<close>; any other keyword is accepted by
  \<^verbatim>\<open>**kwargs\<close> and kept in \<open>other_keywords\<close>.
\<close>

record kwargs =
  odict_as_unordered :: bool
  ignored_folder_content :: "pystr list"
  other_keywords :: "(string \<times> int) list"

definition no_kwargs :: kwargs where
  "no_kwargs = \<lparr>odict_as_unordered = False, ignored_folder_content = [], other_keywords = []\<rparr>"

subsection \<open>Leaf digests\<close>

text \<open>
  \<^verbatim>\<open>_single_digest\<close>: one BLAKE2b call on the bytes of the object, the tag given as
  personalisation, at node depth 0.
\<close>

definition single_digest_args :: "string \<Rightarrow> bytes \<Rightarrow> blake2b_args" where
  "single_digest_args obj_type obj_bytes = BLAKE2B_OPTIONS obj_bytes (ascii obj_type) 0 False"

definition single_digest :: "pylib \<Rightarrow> string \<Rightarrow> bytes \<Rightarrow> bytes" where
  "single_digest L obj_type obj_bytes = blake2b L (single_digest_args obj_type obj_bytes)"

definition END_DIGEST :: "pylib \<Rightarrow> bytes" where
  "END_DIGEST L = single_digest L '')'' []"

text \<open>
  \<^verbatim>\<open>float_to_text\<close>: \<^verbatim>\<open>'{:.Ng}'.format(value)\<close> renders a float; a
  \<^verbatim>\<open>Fraction\<close> does not take the format and raises \<^verbatim>\<open>TypeError\<close> (as Python
  does before version 3.12).
\<close>

definition float_to_text :: "pylib \<Rightarrow> pyreal \<Rightarrow> nat \<Rightarrow> error + string" where
  "float_to_text L v sig =
     (case v of PyFloat x \<Rightarrow> Inr (format_g L sig x) | PyFraction num den \<Rightarrow> Inl TypeError)"

text \<open>
  A generator that raises stops the whole call: of a list of results, the first error in
  order is the outcome. \<open>chain_results\<close> is \<^verbatim>\<open>chain.from_iterable\<close> over the
  results, \<open>all_results\<close> collects them unflattened.
\<close>

fun chain_results :: "(error + 'a list) list \<Rightarrow> error + 'a list" where
  "chain_results [] = Inr []"
| "chain_results (r # rs) =
     (case r of
        Inl e \<Rightarrow> Inl e
      | Inr ds \<Rightarrow> (case chain_results rs of Inl e \<Rightarrow> Inl e | Inr ds' \<Rightarrow> Inr (ds @ ds')))"

fun all_results :: "(error + 'a) list \<Rightarrow> error + 'a list" where
  "all_results [] = Inr []"
| "all_results (r # rs) =
     (case r of
        Inl e \<Rightarrow> Inl e
      | Inr d \<Rightarrow> (case all_results rs of Inl e \<Rightarrow> Inl e | Inr ds \<Rightarrow> Inr (d # ds)))"

text \<open>The body of the handlers for sequences and sets, given the results of the elements.\<close>

definition sequence_digests :: "pylib \<Rightarrow> (error + bytes list) list \<Rightarrow> error + bytes list" where
  "sequence_digests L rs =
     (case chain_results rs of
        Inl e \<Rightarrow> Inl e
      | Inr ds \<Rightarrow> Inr ([single_digest L ''list('' []] @ ds @ [END_DIGEST L]))"

definition set_digests :: "pylib \<Rightarrow> (error + bytes list) list \<Rightarrow> error + bytes list" where
  "set_digests L rs =
     (case all_results rs of
        Inl e \<Rightarrow> Inl e
      | Inr hs \<Rightarrow> Inr ([single_digest L ''set('' []] @ concat (sort hs) @ [END_DIGEST L]))"

text \<open>
  The handler for \<^verbatim>\<open>abc.Mapping\<close>, given for each item the results of hashing its key
  and its value: \<^verbatim>\<open>hashed_key_mapping()\<close> hashes every key first, in iteration order;
  \<^verbatim>\<open>sorted(..., key=itemgetter(0))\<close> is a stable sort on the key digests alone; the
  values are hashed in the sorted order.
\<close>

definition mapping_digests ::
  "pylib \<Rightarrow> ((error + bytes list) \<times> (error + bytes list)) list \<Rightarrow> error + bytes list" where
  "mapping_digests L rs =
     (case all_results (map fst rs) of
        Inl e \<Rightarrow> Inl e
      | Inr ks \<Rightarrow>
          (case chain_results
                  (map (\<lambda>(k_digest, r). case r of Inl e \<Rightarrow> Inl e | Inr v \<Rightarrow> Inr (k_digest @ v))
                       (sort_key fst (zip ks (map snd rs)))) of
             Inl e \<Rightarrow> Inl e
           | Inr ds \<Rightarrow> Inr ([single_digest L ''dict('' []] @ ds @ [END_DIGEST L])))"

definition odict_digests ::
  "pylib \<Rightarrow> ((error + bytes list) \<times> (error + bytes list)) list \<Rightarrow> error + bytes list" where
  "odict_digests L rs =
     (case chain_results
             (map (\<lambda>(kr, vr). case kr of
                                 Inl e \<Rightarrow> Inl e
                               | Inr k \<Rightarrow> (case vr of Inl e \<Rightarrow> Inl e | Inr v \<Rightarrow> Inr (k @ v))) rs) of
        Inl e \<Rightarrow> Inl e
      | Inr ds \<Rightarrow> Inr ([single_digest L ''odict('' []] @ ds @ [END_DIGEST L]))"

text \<open>The handler for \<^verbatim>\<open>numbers.Integral\<close>.\<close>

definition int_digests :: "pylib \<Rightarrow> int \<Rightarrow> bytes list" where
  "int_digests L i = [single_digest L ''int'' (ascii (int_to_text i))]"

text \<open>
  The handler for \<^verbatim>\<open>datetime\<close>. Under Python 2 an aware value is made naive by
  subtracting its offset, and the seconds since \<^verbatim>\<open>datetime(1970, 1, 1)\<close> are taken.
  Under Python 3 a value with no \<^verbatim>\<open>tzinfo\<close>, or whose \<^verbatim>\<open>utcoffset()\<close> is
  \<^verbatim>\<open>None\<close>, gets \<^verbatim>\<open>pytz.utc\<close>, and \<^verbatim>\<open>timestamp()\<close> of the aware value is
  the seconds between it and the epoch in UTC.
\<close>

definition total_seconds :: "int \<Rightarrow> real" where
  "total_seconds us = real_of_int us / 1000000"

definition datetime_timestamp :: "pylib \<Rightarrow> datetime \<Rightarrow> real" where
  "datetime_timestamp L val =
     (if PY2 L then
        (let val' = (if tzinfo val \<noteq> None \<and> utcoffset val \<noteq> None
                     then \<lparr>wall = wall val - the (utcoffset val), tzinfo = None\<rparr> else val)
         in total_seconds (wall val'))
      else
        (let val' = (if tzinfo val = None \<or> utcoffset val = None
                     then val\<lparr>tzinfo := Some pytz_utc\<rparr> else val)
         in total_seconds (wall val' - the (utcoffset val'))))"

text \<open>
  \<^verbatim>\<open>folder_digests\<close> of the handler for \<^verbatim>\<open>Folder\<close>: the entries sorted by name,
  the ignored names skipped. The digest of a name is yielded before the file is opened or
  the subfolder entered, so an encoding error comes before an error of the read.
\<close>

fun folder_digests :: "pylib \<Rightarrow> pystr list \<Rightarrow> (pystr \<times> entry) list \<Rightarrow> error + bytes list" where
  "folder_digests L ignored content =
     chain_results
       (map (\<lambda>(name, e).
               if name \<in> set ignored then Inr []
               else (case utf8_encode name of
                       Inl err \<Rightarrow> Inl err
                     | Inr n \<Rightarrow>
                         (case e of
                            File fbytes \<Rightarrow>
                              Inr [single_digest L ''fname'' n, single_digest L ''fcontent'' fbytes]
                          | Dir sub \<Rightarrow>
                              (case folder_digests L ignored sub of
                                 Inl err \<Rightarrow> Inl err
                               | Inr ds \<Rightarrow> Inr ([single_digest L ''dir('' n] @ ds @ [END_DIGEST L]))
                          | UnreadableFile \<Rightarrow> Inl IOError
                          | UnlistableDir \<Rightarrow> Inl IOError)))
            (sort_key fst content))"

subsection \<open>The dispatch\<close>

fun make_hash_impl :: "pylib \<Rightarrow> kwargs \<Rightarrow> pyvalue \<Rightarrow> error + bytes list" where
  "make_hash_impl L kw (VBytes bytes_obj) = Inr [single_digest L ''str'' bytes_obj]"
| "make_hash_impl L kw (VStr val) =
     (case utf8_encode val of Inl e \<Rightarrow> Inl e | Inr b \<Rightarrow> Inr [single_digest L ''str'' b])"
| "make_hash_impl L kw (VList sequence_obj) =
     sequence_digests L (map (make_hash_impl L kw) sequence_obj)"
| "make_hash_impl L kw (VTuple sequence_obj) =
     sequence_digests L (map (make_hash_impl L kw) sequence_obj)"
| "make_hash_impl L kw (VByteArray sequence_obj) =
     sequence_digests L (map (\<lambda>i. Inr (int_digests L (uint i))) sequence_obj)"
| "make_hash_impl L kw (VSet set_obj) =
     set_digests L (map (make_hash_impl L kw) set_obj)"
| "make_hash_impl L kw (VDict mapping) =
     mapping_digests L (map (\<lambda>(key, val). (make_hash_impl L kw key, make_hash_impl L kw val)) mapping)"
| "make_hash_impl L kw (VOrderedDict mapping) =
     (if odict_as_unordered kw then
        mapping_digests L
          (map (\<lambda>(key, val). (make_hash_impl L no_kwargs key, make_hash_impl L no_kwargs val)) mapping)
      else
        odict_digests L
          (map (\<lambda>(key, val). (make_hash_impl L kw key, make_hash_impl L kw val)) mapping))"
| "make_hash_impl L kw (VFloat val) =
     (case float_to_text L (PyFloat val) (AIIDA_FLOAT_PRECISION L) of
        Inl e \<Rightarrow> Inl e
      | Inr t \<Rightarrow> Inr [single_digest L ''float'' (ascii t)])"
| "make_hash_impl L kw (VFraction num den) =
     (case float_to_text L (PyFraction num den) (AIIDA_FLOAT_PRECISION L) of
        Inl e \<Rightarrow> Inl e
      | Inr t \<Rightarrow> Inr [single_digest L ''float'' (ascii t)])"
| "make_hash_impl L kw (VComplex re im) =
     (case float_to_text L (PyFloat re) (AIIDA_FLOAT_PRECISION L) of
        Inl e \<Rightarrow> Inl e
      | Inr t \<Rightarrow>
          (case float_to_text L (PyFloat im) (AIIDA_FLOAT_PRECISION L) of
             Inl e \<Rightarrow> Inl e
           | Inr u \<Rightarrow> Inr [single_digest L ''complex'' (ascii (t @ ''!'' @ u))]))"
| "make_hash_impl L kw (VInt val) = Inr (int_digests L val)"
| "make_hash_impl L kw (VBool val) = Inr [single_digest L ''bool'' (if val then [1] else [0])]"
| "make_hash_impl L kw VNone = Inr [single_digest L ''none'' []]"
| "make_hash_impl L kw (VDatetime val) =
     (case float_to_text L (PyFloat (datetime_timestamp L val)) (AIIDA_FLOAT_PRECISION L) of
        Inl e \<Rightarrow> Inl e
      | Inr t \<Rightarrow> Inr [single_digest L ''datetime'' (ascii t)])"
| "make_hash_impl L kw (VUUID val) = Inr [single_digest L ''uuid'' val]"
| "make_hash_impl L kw (VFolder folder) =
     (case folder_digests L (ignored_folder_content kw) folder of
        Inl e \<Rightarrow> Inl e
      | Inr ds \<Rightarrow> Inr ([single_digest L ''folder'' []] @ ds))"
| "make_hash_impl L kw VUnlistableFolder = Inl IOError"
| "make_hash_impl L kw (VObject type_name) = Inl (ValueError type_name)"

text \<open>
  \<^verbatim>\<open>make_hash\<close>: the digests are fed one after the other to a BLAKE2b node of depth 1
  marked as last node, then the digest of an empty last leaf, and the result is read in
  hexadecimal.
\<close>

definition final_hash_args :: "pylib \<Rightarrow> bytes list \<Rightarrow> blake2b_args" where
  "final_hash_args L hashes =
     BLAKE2B_OPTIONS (concat hashes @ blake2b L (BLAKE2B_OPTIONS [] [] 0 True)) [] 1 True"

definition make_hash :: "pylib \<Rightarrow> kwargs \<Rightarrow> pyvalue \<Rightarrow> error + string" where
  "make_hash L kw object_to_hash =
     (case make_hash_impl L kw object_to_hash of
        Inl e \<Rightarrow> Inl e
      | Inr hashes \<Rightarrow> Inr (hexdigest (blake2b L (final_hash_args L hashes))))"

subsection \<open>Notions the properties are stated with\<close>

text \<open>
  The instant a timestamp denotes, in the words of the specification: a timestamp without a
  timezone is read as UTC; the instant is counted in microseconds from the epoch.
\<close>

definition spec_instant :: "datetime \<Rightarrow> int" where
  "spec_instant d = wall d - (case utcoffset d of None \<Rightarrow> 0 | Some off \<Rightarrow> off)"

text \<open>
  What the handlers can fail on. A text is encodable when UTF-8 encodes it; the names of a
  folder are encodable when each entry's name is, at every depth; a listing is readable when
  every file in it can be read and every subfolder listed, at every depth;
  \<open>unhashable_types\<close> lists the types of the values without a handler that a value is or
  contains; \<open>text_encodable\<close> says that every text of a value, and every name of a folder
  in it, is encodable; \<open>reals_are_floats\<close> that it holds no real other than floats;
  \<open>folders_readable\<close> that every folder in it can be listed and read. A value is
  \<open>supported\<close> when it is built only from the categories with a handler, its text is
  encodable, its reals are floats and its folders are readable.
\<close>

definition encodable :: "pystr \<Rightarrow> bool" where
  "encodable s = (case utf8_encode s of Inl e \<Rightarrow> False | Inr b \<Rightarrow> True)"








text \<open>
  What is asked of BLAKE2b where a property needs it. \<open>digest_size_ok\<close>: a digest has the
  length the call asks for. \<open>no_collision\<close>: the calls of a given set have pairwise
  different digests. No function with digests of fixed length is free of collisions on all
  inputs, so the set is always the finite set of calls a property is about.
\<close>

definition digest_size_ok :: "pylib \<Rightarrow> bool" where
  "digest_size_ok L = (\<forall>a. length (blake2b L a) = digest_size a)"

definition no_collision :: "pylib \<Rightarrow> blake2b_args set \<Rightarrow> bool" where
  "no_collision L A = inj_on (blake2b L) A"

text \<open>
  Adding an entry to a folder: \<open>add_entry path n new content\<close> follows \<open>path\<close> down the
  subfolders of that name and puts the entry \<open>new\<close> at position \<open>n\<close> of the listing it
  reaches.
\<close>

fun add_entry :: "pystr list \<Rightarrow> nat \<Rightarrow> pystr \<times> entry \<Rightarrow> (pystr \<times> entry) list \<Rightarrow> (pystr \<times> entry) list" where
  "add_entry [] n new content = take n content @ new # drop n content"
| "add_entry (d # path) n new content =
     map (\<lambda>(name, e). (name, (case e of
                                 Dir sub \<Rightarrow> if name = d then Dir (add_entry path n new sub) else e
                               | _ \<Rightarrow> e)))
         content"

text \<open>
  An instance of the parameters, for evaluating the definitions at concrete inputs. Its
  digest is not BLAKE2b: it is the first bytes of the arguments of the call, cut or padded to
  the digest size, which is enough to tell apart the calls of the examples below. Its
  rendering of a float is Python's for the float 1.0.
\<close>

definition sample_blake2b :: "blake2b_args \<Rightarrow> bytes" where
  "sample_blake2b a =
     take (digest_size a)
       ([of_nat (length (data a)), of_nat (node_depth a), of_bool (last_node a)]
        @ person a @ [255] @ data a @ replicate (digest_size a) 0)"

definition sample_lib :: pylib where
  "sample_lib = \<lparr>blake2b = sample_blake2b, format_g = (\<lambda>sig x. if x = 1 then ''1'' else ''?''),
                  AIIDA_FLOAT_PRECISION = 14, PY2 = False\<rparr>"

text \<open>
  The four BLAKE2b calls that hashing the text \<open>1\<close>, the integer 1, the real 1.0 and
  \<open>True\<close> make for their leaf digests.
\<close>

definition scalar_one_calls :: "pylib \<Rightarrow> blake2b_args list" where
  "scalar_one_calls L =
     [single_digest_args ''str'' [49],
      single_digest_args ''int'' (ascii (int_to_text 1)),
      single_digest_args ''float'' (ascii (format_g L (AIIDA_FLOAT_PRECISION L) 1)),
      single_digest_args ''bool'' [1]]"

text \<open>
  The body of the loop of \<^verbatim>\<open>folder_digests\<close>, for one entry of the sorted listing; the
  function above is the chain of these over the listing (\<open>folder_digests_unfold\<close> below).
\<close>

fun entry_digests :: "pylib \<Rightarrow> pystr list \<Rightarrow> pystr \<times> entry \<Rightarrow> error + bytes list" where
  "entry_digests L ignored (name, e) =
     (if name \<in> set ignored then Inr []
      else (case utf8_encode name of
              Inl err \<Rightarrow> Inl err
            | Inr n \<Rightarrow>
                (case e of
                   File fbytes \<Rightarrow>
                     Inr [single_digest L ''fname'' n, single_digest L ''fcontent'' fbytes]
                 | Dir sub \<Rightarrow>
                     (case folder_digests L ignored sub of
                        Inl err \<Rightarrow> Inl err
                      | Inr ds \<Rightarrow> Inr ([single_digest L ''dir('' n] @ ds @ [END_DIGEST L]))
                 | UnreadableFile \<Rightarrow> Inl IOError
                 | UnlistableDir \<Rightarrow> Inl IOError)))"

text \<open>The number of digests a result holds.\<close>

definition result_length :: "error + 'a list \<Rightarrow> nat" where
  "result_length r = (case r of Inl e \<Rightarrow> 0 | Inr d \<Rightarrow> length d)"

text \<open>
  A sample folder, holding a subfolder \<open>d\<close> with a file \<open>a\<close>, hashed with the name \<open>x\<close>
  ignored.
\<close>

definition sample_kwargs :: kwargs where
  "sample_kwargs = no_kwargs\<lparr>ignored_folder_content := [[120]]\<rparr>"

definition sample_folder :: "(pystr \<times> entry) list" where
  "sample_folder = [([100], Dir [([97], File [1])])]"

section \<open>Properties\<close>

subsection \<open>Sequences\<close>

text \<open>
  C10. The concrete type of an ordered sequence never influences the digest: a list and a
  tuple of the same values reach the one handler of sequences and get the same digest (and
  fail alike when an element cannot be hashed).
\<close>

theorem list_tuple_same_digest:
  "make_hash L kw (VList xs) = make_hash L kw (VTuple xs)"
  by (simp add: make_hash_def)

subsection \<open>Text and bytes\<close>

text \<open>
  C6. A text and the bytes of its UTF-8 encoding have the same digest: both are hashed under
  the tag \<open>str\<close>.
\<close>

theorem text_bytes_same_digest:
  "utf8_encode s = Inr b \<Longrightarrow> make_hash L kw (VStr s) = make_hash L kw (VBytes b)"
  by (simp add: make_hash_def)

theorem text_bytes_same_digest_witness:
  "\<forall>L kw. utf8_encode [49] = Inr [49] \<and> make_hash L kw (VStr [49]) = make_hash L kw (VBytes [49])"
proof -
  have e: "utf8_encode [49] = Inr [49]" by (simp add: utf8_char_def)
  show ?thesis using e text_bytes_same_digest [OF e] by simp
qed

subsection \<open>Reals\<close>



subsection \<open>Timestamps\<close>

lemma datetime_timestamp_instant:
  "datetime_timestamp L d = total_seconds (spec_instant d)"
  by (cases "tzinfo d")
     (auto simp: datetime_timestamp_def spec_instant_def Let_def pytz_utc_def
           split: tzinfo.splits option.splits)

text \<open>
  C7. The digest of a timestamp depends only on the instant it denotes, a naive timestamp
  being read as UTC: the one leaf digest, under the tag \<open>datetime\<close>, is that of the seconds
  since the epoch rendered with the fixed number of significant digits; a naive timestamp
  and the same wall clock in UTC have the same digest; two timestamps of the same instant
  have the same digest.
\<close>

theorem datetime_digest_by_instant:
  "make_hash_impl L kw (VDatetime d) =
     Inr [single_digest L ''datetime''
            (ascii (format_g L (AIIDA_FLOAT_PRECISION L) (real_of_int (spec_instant d) / 1000000)))]
   \<and> make_hash L kw (VDatetime \<lparr>wall = w, tzinfo = None\<rparr>)
       = make_hash L kw (VDatetime \<lparr>wall = w, tzinfo = Some pytz_utc\<rparr>)
   \<and> (spec_instant d1 = spec_instant d2 \<longrightarrow>
        make_hash L kw (VDatetime d1) = make_hash L kw (VDatetime d2))"
  by (simp add: make_hash_def datetime_timestamp_instant float_to_text_def total_seconds_def
      spec_instant_def pytz_utc_def)

theorem datetime_digest_by_instant_witness:
  "\<forall>L kw. spec_instant \<lparr>wall = 3600000000, tzinfo = Some (TZ (Some 3600000000))\<rparr>
            = spec_instant \<lparr>wall = 0, tzinfo = Some (TZ (Some 0))\<rparr>
      \<and> make_hash L kw (VDatetime \<lparr>wall = 3600000000, tzinfo = Some (TZ (Some 3600000000))\<rparr>)
        = make_hash L kw (VDatetime \<lparr>wall = 0, tzinfo = Some (TZ (Some 0))\<rparr>)"
proof -
  have e: "spec_instant \<lparr>wall = 3600000000, tzinfo = Some (TZ (Some 3600000000))\<rparr>
            = spec_instant \<lparr>wall = 0, tzinfo = Some (TZ (Some 0))\<rparr>"
    by (simp add: spec_instant_def)
  show ?thesis
    using e datetime_digest_by_instant
      [of _ _ "\<lparr>wall = 0, tzinfo = Some (TZ (Some 0))\<rparr>" 0
          "\<lparr>wall = 3600000000, tzinfo = Some (TZ (Some 3600000000))\<rparr>"
          "\<lparr>wall = 0, tzinfo = Some (TZ (Some 0))\<rparr>"]
    by blast
qed

subsection \<open>Mappings\<close>

text \<open>
  C4, at the input where the code departs from it. With \<^verbatim>\<open>odict_as_unordered\<close> set, the
  handler of \<^verbatim>\<open>OrderedDict\<close> calls the handler of mappings without the keyword
  arguments, so an ordered mapping nested in a value is hashed under \<open>odict(\<close>; the dict with
  the same items passes the flag on and hashes the nested mapping under \<open>dict(\<close>.
\<close>

theorem odict_as_unordered_dropped_in_nested_values:
  "make_hash_impl L (no_kwargs\<lparr>odict_as_unordered := True\<rparr>)
      (VOrderedDict [(VStr [97], VOrderedDict [(VStr [98], VInt 1)])])
     = Inr [single_digest L ''dict('' [], single_digest L ''str'' [97],
            single_digest L ''odict('' [], single_digest L ''str'' [98],
            single_digest L ''int'' [49], END_DIGEST L, END_DIGEST L]
   \<and> make_hash_impl L (no_kwargs\<lparr>odict_as_unordered := True\<rparr>)
      (VDict [(VStr [97], VOrderedDict [(VStr [98], VInt 1)])])
     = Inr [single_digest L ''dict('' [], single_digest L ''str'' [97],
            single_digest L ''dict('' [], single_digest L ''str'' [98],
            single_digest L ''int'' [49], END_DIGEST L, END_DIGEST L]"
  by (simp add: mapping_digests_def odict_digests_def no_kwargs_def utf8_char_def int_digests_def
      int_to_text_def digit_char_def ascii_def)

text \<open>
  C1, at the input where the code departs from it. The text \<open>a\<close> and the bytes \<open>a\<close> are two
  keys of one dict with one key digest; the sort on the key digests is stable and leaves them
  in iteration order, so the digests of the values 1 and 2 come in the order of iteration.
\<close>

theorem mapping_order_dependent_on_equal_key_digests:
  "make_hash_impl L kw (VDict [(VStr [97], VInt 1), (VBytes [97], VInt 2)])
     = Inr [single_digest L ''dict('' [], single_digest L ''str'' [97], single_digest L ''int'' [49],
            single_digest L ''str'' [97], single_digest L ''int'' [50], END_DIGEST L]
   \<and> make_hash_impl L kw (VDict [(VBytes [97], VInt 2), (VStr [97], VInt 1)])
     = Inr [single_digest L ''dict('' [], single_digest L ''str'' [97], single_digest L ''int'' [50],
            single_digest L ''str'' [97], single_digest L ''int'' [49], END_DIGEST L]"
  by (simp add: mapping_digests_def utf8_char_def int_digests_def
      int_to_text_def digit_char_def ascii_def)

subsection \<open>Failure\<close>

declare folder_digests.simps [simp del]



lemma folder_digests_unfold:
  "folder_digests L ign c = chain_results (map (entry_digests L ign) (sort_key fst c))"
proof -
  have "(\<lambda>(name, e).
               if name \<in> set ign then Inr []
               else (case utf8_encode name of
                       Inl err \<Rightarrow> Inl err
                     | Inr n \<Rightarrow>
                         (case e of
                            File fbytes \<Rightarrow>
                              Inr [single_digest L ''fname'' n, single_digest L ''fcontent'' fbytes]
                          | Dir sub \<Rightarrow>
                              (case folder_digests L ign sub of
                                 Inl err \<Rightarrow> Inl err
                               | Inr ds \<Rightarrow> Inr ([single_digest L ''dir('' n] @ ds @ [END_DIGEST L]))
                          | UnreadableFile \<Rightarrow> Inl IOError
                          | UnlistableDir \<Rightarrow> Inl IOError)))
        = entry_digests L ign"
    by (auto simp: fun_eq_iff)
  then show ?thesis by (subst folder_digests.simps) simp
qed



lemma chain_results_fails: "Inl e \<in> set rs \<Longrightarrow> \<exists>e'. chain_results rs = Inl e'"
  by (induction rs) (auto split: sum.splits)


lemma all_results_Inr: "all_results rs = Inr ds \<Longrightarrow> rs = map Inr ds"
  by (induction rs arbitrary: ds) (auto split: sum.splits)

lemma all_results_map_Inr: "all_results (map Inr ds) = Inr ds"
  by (induction ds) auto

lemma chain_results_map_Inr: "chain_results (map Inr ds) = Inr (concat ds)"
  by (induction ds) auto

lemma chain_results_Inr: "chain_results rs = Inr ds \<Longrightarrow> \<exists>dss. rs = map Inr dss \<and> ds = concat dss"
proof (induction rs arbitrary: ds)
  case Nil
  then show ?case by simp
next
  case (Cons r rs)
  from Cons.prems obtain d ds' where r: "r = Inr d" and c: "chain_results rs = Inr ds'" and ds: "ds = d @ ds'"
    by (auto split: sum.splits)
  from Cons.IH [OF c] obtain dss where "rs = map Inr dss" "ds' = concat dss" by blast
  with r ds have "r # rs = map Inr (d # dss) \<and> ds = concat (d # dss)" by simp
  then show ?case by (rule exI [where x = "d # dss"])
qed






lemma encodable_iff: "encodable s \<longleftrightarrow> (\<exists>b. utf8_encode s = Inr b)"
  by (cases "utf8_encode s") (auto simp: encodable_def)













subsection \<open>Digests that differ\<close>

lemma hex_digit_inj: "m < 16 \<Longrightarrow> n < 16 \<Longrightarrow> hex_digit m = hex_digit n \<Longrightarrow> m = n"
proof -
  assume m: "m < 16" and n: "n < 16" and e: "hex_digit m = hex_digit n"
  from e have "(of_char (hex_digit m) :: nat) = of_char (hex_digit n)" by simp
  with m n show "m = n" by (auto simp: hex_digit_def split: if_splits)
qed

lemma hex_byte_inj:
  fixes a b :: byte
  assumes "hex_digit (unat a div 16) = hex_digit (unat b div 16)"
      and "hex_digit (unat a mod 16) = hex_digit (unat b mod 16)"
  shows "a = b"
proof -
  have "unat a < 2 ^ LENGTH(8)" "unat b < 2 ^ LENGTH(8)" by (rule unsigned_less)+
  then have "unat a < 256" "unat b < 256" by simp_all
  then have "unat a div 16 < 16" "unat b div 16 < 16" by simp_all
  with assms(1) have d: "unat a div 16 = unat b div 16" by (auto intro: hex_digit_inj)
  have "unat a mod 16 < 16" "unat b mod 16 < 16" by simp_all
  with assms(2) have m: "unat a mod 16 = unat b mod 16" by (auto intro: hex_digit_inj)
  from d m have "unat a = unat b" by (metis div_mult_mod_eq)
  then show ?thesis by (rule unsigned_word_eqI)
qed

lemma hexdigest_inj: "hexdigest xs = hexdigest ys \<Longrightarrow> xs = ys"
proof (induction xs arbitrary: ys)
  case Nil
  then show ?case by (cases ys) (simp_all add: hexdigest_def)
next
  case (Cons x xs)
  then obtain y ys' where ys: "ys = y # ys'" by (cases ys) (auto simp: hexdigest_def)
  with Cons.prems have h: "hex_digit (unat x div 16) = hex_digit (unat y div 16)"
      "hex_digit (unat x mod 16) = hex_digit (unat y mod 16)" "hexdigest xs = hexdigest ys'"
    by (simp_all add: hexdigest_def)
  from hex_byte_inj [OF h(1,2)] Cons.IH [OF h(3)] ys show ?case by simp
qed

lemma final_hash_args_eq: "final_hash_args L ds = final_hash_args L ds' \<longleftrightarrow> concat ds = concat ds'"
  by (simp add: final_hash_args_def BLAKE2B_OPTIONS_def)

lemma make_hash_neq:
  assumes "make_hash_impl L kw v = Inr ds" "make_hash_impl L kw' v' = Inr ds'"
      and "concat ds \<noteq> concat ds'"
      and "no_collision L {final_hash_args L ds, final_hash_args L ds'}"
  shows "make_hash L kw v \<noteq> make_hash L kw' v'"
proof -
  from assms(3) have "final_hash_args L ds \<noteq> final_hash_args L ds'" by (simp add: final_hash_args_eq)
  with assms(4) have "blake2b L (final_hash_args L ds) \<noteq> blake2b L (final_hash_args L ds')"
    by (auto simp: no_collision_def inj_on_def)
  then have "hexdigest (blake2b L (final_hash_args L ds)) \<noteq> hexdigest (blake2b L (final_hash_args L ds'))"
    using hexdigest_inj by blast
  with assms(1,2) show ?thesis by (simp add: make_hash_def)
qed

lemma single_digest_length: "digest_size_ok L \<Longrightarrow> length (single_digest L t b) = 32"
  by (simp add: digest_size_ok_def single_digest_def single_digest_args_def BLAKE2B_OPTIONS_def)

lemma END_DIGEST_length: "digest_size_ok L \<Longrightarrow> length (END_DIGEST L) = 32"
  by (simp add: END_DIGEST_def single_digest_length)

lemma concat_length_fixed: "\<forall>d \<in> set ds. length d = k \<Longrightarrow> length (concat ds) = k * length ds"
  by (induction ds) auto

lemma sample_digest_size_ok: "digest_size_ok sample_lib"
  by (simp add: digest_size_ok_def sample_lib_def sample_blake2b_def)

lemma no_collision_pair: "blake2b L a \<noteq> blake2b L b \<Longrightarrow> no_collision L {a, b}"
  by (auto simp: no_collision_def inj_on_def)

lemma chain_results_Inr_map: "chain_results (map (\<lambda>x. Inr (f x)) xs) = Inr (concat (map f xs))"
  by (induction xs) auto

lemma bytearray_digests:
  "make_hash_impl L kw (VByteArray b) =
     Inr (single_digest L ''list('' [] # concat (map (\<lambda>i. int_digests L (uint i)) b) @ [END_DIGEST L])"
  by (simp add: sequence_digests_def chain_results_Inr_map)

lemma bytearray_as_int_list:
  "make_hash_impl L kw (VByteArray b) = make_hash_impl L kw (VList (map (\<lambda>i. VInt (uint i)) b))"
  by (simp add: comp_def)

text \<open>
  C9. A bytearray is not hashed as a byte string: it reaches the handler of sequences and is
  hashed as the list of its byte values, under \<open>list(\<close>; its digest sequence has at least two
  digests where that of the bytes has one, so the two digests differ for every bytes value
  (the empty one too) unless the final BLAKE2b call collides on the two sequences.
\<close>

theorem bytearray_hashed_as_list:
  "make_hash L kw (VByteArray b) = make_hash L kw (VList (map (\<lambda>i. VInt (uint i)) b))
   \<and> (digest_size_ok L \<and> make_hash_impl L kw (VByteArray b) = Inr ds
        \<and> make_hash_impl L kw (VBytes b) = Inr ds'
        \<and> no_collision L {final_hash_args L ds, final_hash_args L ds'}
      \<longrightarrow> make_hash L kw (VByteArray b) \<noteq> make_hash L kw (VBytes b))"
proof (intro conjI impI)
  show "make_hash L kw (VByteArray b) = make_hash L kw (VList (map (\<lambda>i. VInt (uint i)) b))"
    unfolding make_hash_def bytearray_as_int_list ..
next
  assume h: "digest_size_ok L \<and> make_hash_impl L kw (VByteArray b) = Inr ds
        \<and> make_hash_impl L kw (VBytes b) = Inr ds'
        \<and> no_collision L {final_hash_args L ds, final_hash_args L ds'}"
  then have ok: "digest_size_ok L" by simp
  from h have ds: "ds = single_digest L ''list('' [] # concat (map (\<lambda>i. int_digests L (uint i)) b) @ [END_DIGEST L]"
    unfolding bytearray_digests by simp
  from h have ds': "ds' = [single_digest L ''str'' b]" by auto
  have "\<forall>d \<in> set ds. length d = 32"
    using ok by (auto simp: ds int_digests_def single_digest_length END_DIGEST_length)
  then have l: "length (concat ds) = 32 * length ds" by (rule concat_length_fixed)
  have "length ds \<ge> 2" by (simp add: ds)
  with l have "length (concat ds) \<ge> 64" by simp
  moreover have "length (concat ds') = 32" using ok by (simp add: ds' single_digest_length)
  ultimately have "concat ds \<noteq> concat ds'" by auto
  with h show "make_hash L kw (VByteArray b) \<noteq> make_hash L kw (VBytes b)"
    by (intro make_hash_neq [of L kw _ ds kw _ ds']) simp_all
qed

lemmas sample_eval =
  final_hash_args_def BLAKE2B_OPTIONS_def sample_lib_def sample_blake2b_def single_digest_def
  single_digest_args_def END_DIGEST_def ascii_def

theorem bytearray_hashed_as_list_witness:
  "digest_size_ok sample_lib
   \<and> make_hash_impl sample_lib no_kwargs (VByteArray [1])
       = Inr [single_digest sample_lib ''list('' [], single_digest sample_lib ''int'' [49],
              END_DIGEST sample_lib]
   \<and> make_hash_impl sample_lib no_kwargs (VBytes [1]) = Inr [single_digest sample_lib ''str'' [1]]
   \<and> no_collision sample_lib
        {final_hash_args sample_lib
           [single_digest sample_lib ''list('' [], single_digest sample_lib ''int'' [49],
            END_DIGEST sample_lib],
         final_hash_args sample_lib [single_digest sample_lib ''str'' [1]]}
   \<and> make_hash sample_lib no_kwargs (VByteArray [1]) \<noteq> make_hash sample_lib no_kwargs (VBytes [1])"
proof -
  have a: "digest_size_ok sample_lib" by (rule sample_digest_size_ok)
  have b: "make_hash_impl sample_lib no_kwargs (VByteArray [1])
       = Inr [single_digest sample_lib ''list('' [], single_digest sample_lib ''int'' [49],
              END_DIGEST sample_lib]"
    by (simp add: sequence_digests_def int_digests_def int_to_text_def digit_char_def ascii_def)
  have c: "make_hash_impl sample_lib no_kwargs (VBytes [1]) = Inr [single_digest sample_lib ''str'' [1]]"
    by simp
  have d: "no_collision sample_lib
        {final_hash_args sample_lib
           [single_digest sample_lib ''list('' [], single_digest sample_lib ''int'' [49],
            END_DIGEST sample_lib],
         final_hash_args sample_lib [single_digest sample_lib ''str'' [1]]}"
    by (rule no_collision_pair) (simp add: sample_eval)
  from bytearray_hashed_as_list [of sample_lib no_kwargs "[1]"
      "[single_digest sample_lib ''list('' [], single_digest sample_lib ''int'' [49], END_DIGEST sample_lib]"
      "[single_digest sample_lib ''str'' [1]]"] a b c d
  have "make_hash sample_lib no_kwargs (VByteArray [1]) \<noteq> make_hash sample_lib no_kwargs (VBytes [1])"
    by blast
  with a b c d show ?thesis by blast
qed

subsection \<open>Type tags\<close>

lemma leaf_root_distinct:
  assumes inj: "inj_on (blake2b L) S"
      and "c \<in> S" "c' \<in> S"
      and "final_hash_args L [blake2b L c] \<in> S" "final_hash_args L [blake2b L c'] \<in> S"
      and "c \<noteq> c'"
  shows "hexdigest (blake2b L (final_hash_args L [blake2b L c]))
         \<noteq> hexdigest (blake2b L (final_hash_args L [blake2b L c']))"
proof -
  from inj assms(2,3,6) have "blake2b L c \<noteq> blake2b L c'" by (auto simp: inj_on_def)
  then have "final_hash_args L [blake2b L c] \<noteq> final_hash_args L [blake2b L c']"
    by (simp add: final_hash_args_eq)
  with inj assms(4,5) have "blake2b L (final_hash_args L [blake2b L c])
      \<noteq> blake2b L (final_hash_args L [blake2b L c'])"
    by (auto simp: inj_on_def)
  then show ?thesis using hexdigest_inj by blast
qed

lemma make_hash_leaf:
  "make_hash_impl L kw v = Inr [blake2b L c] \<Longrightarrow>
     make_hash L kw v = Inr (hexdigest (blake2b L (final_hash_args L [blake2b L c])))"
  by (simp add: make_hash_def)

text \<open>
  C2. The text \<open>1\<close>, the integer 1, the real 1.0 and \<open>True\<close> have four pairwise different
  digests. The text and the integer give BLAKE2b the same bytes; the four calls differ in
  their personalisation, the tag of the category, and \<open>True\<close> reaches the handler of
  booleans, not that of integers. The digests differ as long as BLAKE2b does not collide on
  these four calls and on the four final calls over their results.
\<close>

theorem type_tags_separate:
  "data (single_digest_args ''str'' [49]) = data (single_digest_args ''int'' (ascii (int_to_text 1)))
   \<and> (no_collision L (set (scalar_one_calls L)
                       \<union> (\<lambda>c. final_hash_args L [blake2b L c]) ` set (scalar_one_calls L))
      \<longrightarrow> distinct [make_hash L kw (VStr [49]), make_hash L kw (VInt 1),
                    make_hash L kw (VFloat 1), make_hash L kw (VBool True)])"
proof (intro conjI impI)
  show "data (single_digest_args ''str'' [49]) = data (single_digest_args ''int'' (ascii (int_to_text 1)))"
    by (simp add: single_digest_args_def BLAKE2B_OPTIONS_def int_to_text_def digit_char_def ascii_def)
next
  let ?S = "set (scalar_one_calls L) \<union> (\<lambda>c. final_hash_args L [blake2b L c]) ` set (scalar_one_calls L)"
  let ?s = "single_digest_args ''str'' [49]"
  let ?i = "single_digest_args ''int'' (ascii (int_to_text 1))"
  let ?f = "single_digest_args ''float'' (ascii (format_g L (AIIDA_FLOAT_PRECISION L) 1))"
  let ?b = "single_digest_args ''bool'' [1]"
  assume "no_collision L ?S"
  then have inj: "inj_on (blake2b L) ?S" by (simp add: no_collision_def)
  have mem: "?s \<in> ?S" "?i \<in> ?S" "?f \<in> ?S" "?b \<in> ?S"
    "final_hash_args L [blake2b L ?s] \<in> ?S" "final_hash_args L [blake2b L ?i] \<in> ?S"
    "final_hash_args L [blake2b L ?f] \<in> ?S" "final_hash_args L [blake2b L ?b] \<in> ?S"
    by (simp_all add: scalar_one_calls_def)
  have ne: "?s \<noteq> ?i" "?s \<noteq> ?f" "?s \<noteq> ?b" "?i \<noteq> ?f" "?i \<noteq> ?b" "?f \<noteq> ?b"
    by (simp_all add: single_digest_args_def BLAKE2B_OPTIONS_def ascii_def)
  have hs: "make_hash L kw (VStr [49]) = Inr (hexdigest (blake2b L (final_hash_args L [blake2b L ?s])))"
    by (rule make_hash_leaf) (simp add: utf8_char_def single_digest_def)
  have hi: "make_hash L kw (VInt 1) = Inr (hexdigest (blake2b L (final_hash_args L [blake2b L ?i])))"
    by (rule make_hash_leaf) (simp add: int_digests_def single_digest_def)
  have hf: "make_hash L kw (VFloat 1) = Inr (hexdigest (blake2b L (final_hash_args L [blake2b L ?f])))"
    by (rule make_hash_leaf) (simp add: single_digest_def float_to_text_def)
  have hb: "make_hash L kw (VBool True) = Inr (hexdigest (blake2b L (final_hash_args L [blake2b L ?b])))"
    by (rule make_hash_leaf) (simp add: single_digest_def)
  show "distinct [make_hash L kw (VStr [49]), make_hash L kw (VInt 1),
                  make_hash L kw (VFloat 1), make_hash L kw (VBool True)]"
    unfolding hs hi hf hb
    using leaf_root_distinct [OF inj mem(1) mem(2) mem(5) mem(6) ne(1)]
      leaf_root_distinct [OF inj mem(1) mem(3) mem(5) mem(7) ne(2)]
      leaf_root_distinct [OF inj mem(1) mem(4) mem(5) mem(8) ne(3)]
      leaf_root_distinct [OF inj mem(2) mem(3) mem(6) mem(7) ne(4)]
      leaf_root_distinct [OF inj mem(2) mem(4) mem(6) mem(8) ne(5)]
      leaf_root_distinct [OF inj mem(3) mem(4) mem(7) mem(8) ne(6)]
    by simp
qed

lemma sample_no_collision_scalar_one:
  "no_collision sample_lib (set (scalar_one_calls sample_lib)
     \<union> (\<lambda>c. final_hash_args sample_lib [blake2b sample_lib c]) ` set (scalar_one_calls sample_lib))"
proof -
  let ?cs = "scalar_one_calls sample_lib @ map (\<lambda>c. final_hash_args sample_lib [blake2b sample_lib c]) (scalar_one_calls sample_lib)"
  have "distinct (map (blake2b sample_lib) ?cs)"
    by (simp add: scalar_one_calls_def sample_eval float_to_text_def int_to_text_def digit_char_def)
  then have "inj_on (blake2b sample_lib) (set ?cs)" by (simp only: distinct_map)
  then show ?thesis by (simp add: no_collision_def)
qed

theorem type_tags_separate_witness:
  "no_collision sample_lib (set (scalar_one_calls sample_lib)
     \<union> (\<lambda>c. final_hash_args sample_lib [blake2b sample_lib c]) ` set (scalar_one_calls sample_lib))
   \<and> distinct [make_hash sample_lib no_kwargs (VStr [49]), make_hash sample_lib no_kwargs (VInt 1),
               make_hash sample_lib no_kwargs (VFloat 1), make_hash sample_lib no_kwargs (VBool True)]"
  using sample_no_collision_scalar_one type_tags_separate [of sample_lib no_kwargs] by blast

subsection \<open>Folders\<close>

lemma chain_results_skip:
  "(\<And>x. x \<in> set xs \<Longrightarrow> \<not> P x \<Longrightarrow> g x = Inr []) \<Longrightarrow>
     chain_results (map g xs) = chain_results (map g (filter P xs))"
  by (induction xs) (auto split: sum.splits)

lemma folder_digests_filter_ignored:
  "folder_digests L ign c = folder_digests L ign (filter (\<lambda>x. fst x \<notin> set ign) c)"
proof -
  have "chain_results (map (entry_digests L ign) (sort_key fst c))
        = chain_results (map (entry_digests L ign) (filter (\<lambda>x. fst x \<notin> set ign) (sort_key fst c)))"
    by (rule chain_results_skip) auto
  then show ?thesis by (simp add: folder_digests_unfold filter_sort)
qed

lemma insort_key_map_same_key:
  "(\<And>x. f (h x) = f x) \<Longrightarrow> insort_key f (h x) (map h ys) = map h (insort_key f x ys)"
  by (induction ys) auto

lemma sort_key_map_same_key:
  "(\<And>x. f (h x) = f x) \<Longrightarrow> sort_key f (map h xs) = map h (sort_key f xs)"
  by (induction xs) (auto simp: insort_key_map_same_key)

lemma add_ignored_entry:
  "fst new \<in> set ign \<Longrightarrow> folder_digests L ign (add_entry path n new c) = folder_digests L ign c"
proof (induction path arbitrary: c)
  case Nil
  have "filter (\<lambda>x. fst x \<notin> set ign) (take n c @ new # drop n c)
        = filter (\<lambda>x. fst x \<notin> set ign) (take n c @ drop n c)"
    using Nil by (simp del: append_take_drop_id)
  then have "filter (\<lambda>x. fst x \<notin> set ign) (add_entry [] n new c) = filter (\<lambda>x. fst x \<notin> set ign) c"
    by simp
  then show ?case
    using folder_digests_filter_ignored [of L ign "add_entry [] n new c"]
      folder_digests_filter_ignored [of L ign c] by simp
next
  case (Cons d path)
  let ?h = "\<lambda>(name, e). (name, (case e of
                                 Dir sub \<Rightarrow> if name = d then Dir (add_entry path n new sub) else e
                               | _ \<Rightarrow> e))"
  have key: "\<And>x. fst (?h x) = fst x" by (auto split: prod.splits)
  have same: "\<And>x. entry_digests L ign (?h x) = entry_digests L ign x"
  proof -
    fix x :: "pystr \<times> entry"
    obtain name e where x: "x = (name, e)" by (cases x)
    show "entry_digests L ign (?h x) = entry_digests L ign x"
      using Cons.IH [OF Cons.prems] by (cases e; cases "utf8_encode name") (auto simp: x)
  qed
  have "sort_key fst (map ?h c) = map ?h (sort_key fst c)"
    by (rule sort_key_map_same_key) (rule key)
  then have "folder_digests L ign (map ?h c) = folder_digests L ign c"
    by (simp add: folder_digests_unfold comp_def same)
  then show ?case by simp
qed

lemma chain_results_length:
  "chain_results rs = Inr ds \<Longrightarrow> length ds = sum_list (map result_length rs)"
  by (induction rs arbitrary: ds) (auto simp: result_length_def split: sum.splits)

lemma chain_results_length_add:
  assumes "mset rs' = add_mset r (mset rs)"
      and "chain_results rs = Inr ds" "chain_results rs' = Inr ds'"
  shows "length ds' = result_length r + length ds"
proof -
  have "sum_list (map result_length rs') = sum_mset (image_mset result_length (mset rs'))"
    by (metis mset_map sum_mset_sum_list)
  also have "\<dots> = result_length r + sum_mset (image_mset result_length (mset rs))"
    by (simp add: assms(1))
  also have "\<dots> = result_length r + sum_list (map result_length rs)"
    by (metis mset_map sum_mset_sum_list)
  finally show ?thesis
    using chain_results_length [OF assms(2)] chain_results_length [OF assms(3)] by simp
qed

lemma add_file_length:
  assumes "name \<notin> set ign"
      and "folder_digests L ign c = Inr ds"
      and "folder_digests L ign (add_entry [] n (name, File fb) c) = Inr ds'"
  shows "length ds' = length ds + 2"
proof -
  let ?new = "(name, File fb)"
  let ?c' = "take n c @ ?new # drop n c"
  let ?g = "entry_digests L ign"
  have "mset ?c' = add_mset ?new (mset (take n c @ drop n c))" by (simp del: append_take_drop_id)
  then have m: "mset ?c' = add_mset ?new (mset c)" by simp
  have "mset (map ?g (sort_key fst ?c')) = image_mset ?g (mset ?c')" by simp
  with m have m': "mset (map ?g (sort_key fst ?c')) = add_mset (?g ?new) (mset (map ?g (sort_key fst c)))"
    by simp
  from assms(2) have c: "chain_results (map ?g (sort_key fst c)) = Inr ds"
    by (simp add: folder_digests_unfold)
  from assms(3) have c': "chain_results (map ?g (sort_key fst ?c')) = Inr ds'"
    by (simp add: folder_digests_unfold)
  have "?g ?new \<in> set (map ?g (sort_key fst ?c'))" by simp
  with c' have "\<not> isl (?g ?new)"
    by (metis chain_results_fails sum.collapse(1) sum.distinct(1))
  with assms(1) have "result_length (?g ?new) = 2"
    by (auto simp: result_length_def split: sum.splits)
  with chain_results_length_add [OF m' c c'] show ?thesis by simp
qed

lemma folder_digests_sizes:
  "digest_size_ok L \<Longrightarrow> folder_digests L ign c = Inr ds \<Longrightarrow> \<forall>d \<in> set ds. length d = 32"
proof (induction L ign c arbitrary: ds rule: folder_digests.induct)
  case (1 L ignored content)
  from "1.prems"(2) have "chain_results (map (entry_digests L ignored) (sort_key fst content)) = Inr ds"
    by (simp add: folder_digests_unfold)
  from chain_results_Inr [OF this] obtain dss where
    dss: "map (entry_digests L ignored) (sort_key fst content) = map Inr dss" and ds: "ds = concat dss"
    by blast
  show ?case
  proof
    fix d assume "d \<in> set ds"
    with ds obtain es where es: "es \<in> set dss" "d \<in> set es" by auto
    then have "Inr es \<in> set (map (entry_digests L ignored) (sort_key fst content))"
      by (simp add: dss)
    then obtain name e where mem: "(name, e) \<in> set (sort_key fst content)"
        and g: "entry_digests L ignored (name, e) = Inr es"
      by auto
    from g es(2) have ni: "name \<notin> set ignored" by (auto split: if_splits)
    with g obtain nb where nb: "utf8_encode name = Inr nb"
      by (cases "utf8_encode name") auto
    show "length d = 32"
    proof (cases e)
      case (File fbytes)
      with g ni nb es(2) show ?thesis
        using single_digest_length [OF "1.prems"(1)] by auto
    next
      case (Dir sub)
      with g ni nb obtain sds where sds: "folder_digests L ignored sub = Inr sds"
          and "es = [single_digest L ''dir('' nb] @ sds @ [END_DIGEST L]"
        by (cases "folder_digests L ignored sub") auto
      with es(2) "1.IH" [OF mem refl ni nb Dir "1.prems"(1) sds] show ?thesis
        using single_digest_length [OF "1.prems"(1)] END_DIGEST_length [OF "1.prems"(1)] by auto
    next
      case UnreadableFile
      with g ni nb show ?thesis by simp
    next
      case UnlistableDir
      with g ni nb show ?thesis by simp
    qed
  qed
qed

text \<open>
  C8. Adding an entry whose name is on the ignore list, to the folder or to a subfolder at
  any depth and at any position of the listing, leaves the digest of the folder unchanged.
  Adding a file whose name is not on the list to the folder adds two digests to the sequence
  (one for the name, one for the content), so the digest of the folder changes unless the
  final BLAKE2b call collides on the two sequences.
\<close>

theorem folder_ignore_list:
  "(fst new \<in> set (ignored_folder_content kw) \<longrightarrow>
      make_hash L kw (VFolder (add_entry path n new folder)) = make_hash L kw (VFolder folder))
   \<and> (name \<notin> set (ignored_folder_content kw) \<and> digest_size_ok L
        \<and> make_hash_impl L kw (VFolder folder) = Inr ds
        \<and> make_hash_impl L kw (VFolder (add_entry [] n (name, File fbytes) folder)) = Inr ds'
        \<and> no_collision L {final_hash_args L ds, final_hash_args L ds'}
      \<longrightarrow> length ds' = length ds + 2
          \<and> make_hash L kw (VFolder (add_entry [] n (name, File fbytes) folder))
              \<noteq> make_hash L kw (VFolder folder))"
proof (intro conjI impI)
  assume "fst new \<in> set (ignored_folder_content kw)"
  then show "make_hash L kw (VFolder (add_entry path n new folder)) = make_hash L kw (VFolder folder)"
    by (simp add: make_hash_def add_ignored_entry del: add_entry.simps)
next
  let ?f' = "add_entry [] n (name, File fbytes) folder"
  assume h: "name \<notin> set (ignored_folder_content kw) \<and> digest_size_ok L
        \<and> make_hash_impl L kw (VFolder folder) = Inr ds
        \<and> make_hash_impl L kw (VFolder ?f') = Inr ds'
        \<and> no_collision L {final_hash_args L ds, final_hash_args L ds'}"
  then have ok: "digest_size_ok L" and ni: "name \<notin> set (ignored_folder_content kw)" by simp_all
  from h obtain fs where fs: "folder_digests L (ignored_folder_content kw) folder = Inr fs"
      and ds: "ds = single_digest L ''folder'' [] # fs"
    by (cases "folder_digests L (ignored_folder_content kw) folder") auto
  from h obtain fs' where fs': "folder_digests L (ignored_folder_content kw) ?f' = Inr fs'"
      and ds': "ds' = single_digest L ''folder'' [] # fs'"
    by (cases "folder_digests L (ignored_folder_content kw) ?f'") (auto simp del: add_entry.simps)
  from add_file_length [OF ni fs fs'] ds ds' show len: "length ds' = length ds + 2" by simp
  have "\<forall>d \<in> set ds. length d = 32"
    using folder_digests_sizes [OF ok fs] single_digest_length [OF ok] by (auto simp: ds)
  then have l: "length (concat ds) = 32 * length ds" by (rule concat_length_fixed)
  have "\<forall>d \<in> set ds'. length d = 32"
    using folder_digests_sizes [OF ok fs'] single_digest_length [OF ok] by (auto simp: ds')
  then have "length (concat ds') = 32 * length ds'" by (rule concat_length_fixed)
  with l len have "concat ds' \<noteq> concat ds" by auto
  moreover from h have "no_collision L {final_hash_args L ds', final_hash_args L ds}"
    by (simp add: insert_commute)
  ultimately show "make_hash L kw (VFolder ?f') \<noteq> make_hash L kw (VFolder folder)"
    using h by (intro make_hash_neq [of L kw _ ds' kw _ ds]) simp_all
qed

lemma sample_folder_digests:
  "make_hash_impl sample_lib sample_kwargs (VFolder sample_folder)
     = Inr [single_digest sample_lib ''folder'' [], single_digest sample_lib ''dir('' [100],
            single_digest sample_lib ''fname'' [97], single_digest sample_lib ''fcontent'' [1],
            END_DIGEST sample_lib]"
  by (simp add: sample_kwargs_def sample_folder_def no_kwargs_def folder_digests_unfold utf8_char_def)

lemma sample_folder_digests_added:
  "make_hash_impl sample_lib sample_kwargs (VFolder (add_entry [] 0 ([98], File [3]) sample_folder))
     = Inr [single_digest sample_lib ''folder'' [],
            single_digest sample_lib ''fname'' [98], single_digest sample_lib ''fcontent'' [3],
            single_digest sample_lib ''dir('' [100],
            single_digest sample_lib ''fname'' [97], single_digest sample_lib ''fcontent'' [1],
            END_DIGEST sample_lib]"
  by (simp add: sample_kwargs_def sample_folder_def no_kwargs_def folder_digests_unfold utf8_char_def)

lemma sample_folder_no_collision:
  "no_collision sample_lib
     {final_hash_args sample_lib
        [single_digest sample_lib ''folder'' [], single_digest sample_lib ''dir('' [100],
         single_digest sample_lib ''fname'' [97], single_digest sample_lib ''fcontent'' [1],
         END_DIGEST sample_lib],
      final_hash_args sample_lib
        [single_digest sample_lib ''folder'' [],
         single_digest sample_lib ''fname'' [98], single_digest sample_lib ''fcontent'' [3],
         single_digest sample_lib ''dir('' [100],
         single_digest sample_lib ''fname'' [97], single_digest sample_lib ''fcontent'' [1],
         END_DIGEST sample_lib]}"
  by (rule no_collision_pair) (simp add: sample_eval)

theorem folder_ignore_list_witness:
  "fst ([120], File [2]) \<in> set (ignored_folder_content sample_kwargs)
   \<and> make_hash sample_lib sample_kwargs (VFolder (add_entry [[100]] 1 ([120], File [2]) sample_folder))
       = make_hash sample_lib sample_kwargs (VFolder sample_folder)
   \<and> [98] \<notin> set (ignored_folder_content sample_kwargs)
   \<and> digest_size_ok sample_lib
   \<and> make_hash sample_lib sample_kwargs (VFolder (add_entry [] 0 ([98], File [3]) sample_folder))
       \<noteq> make_hash sample_lib sample_kwargs (VFolder sample_folder)"
proof -
  have a: "fst ([120], File [2]) \<in> set (ignored_folder_content sample_kwargs)"
    by (simp add: sample_kwargs_def)
  have b: "[98] \<notin> set (ignored_folder_content sample_kwargs)"
    by (simp add: sample_kwargs_def)
  from a folder_ignore_list [where new = "([120], File [2])" and kw = sample_kwargs and L = sample_lib
      and path = "[[100]]" and n = 1 and folder = sample_folder]
  have c: "make_hash sample_lib sample_kwargs (VFolder (add_entry [[100]] 1 ([120], File [2]) sample_folder))
       = make_hash sample_lib sample_kwargs (VFolder sample_folder)"
    by blast
  from b sample_digest_size_ok sample_folder_digests sample_folder_digests_added
    sample_folder_no_collision
    folder_ignore_list [where kw = sample_kwargs and L = sample_lib and n = 0 and folder = sample_folder
      and name = "[98]" and fbytes = "[3]"]
  have d: "make_hash sample_lib sample_kwargs (VFolder (add_entry [] 0 ([98], File [3]) sample_folder))
       \<noteq> make_hash sample_lib sample_kwargs (VFolder sample_folder)"
    by blast
  from a b c d sample_digest_size_ok show ?thesis by blast
qed

subsection \<open>Order independence\<close>

text \<open>
  What holds of the claimed independence of the iteration order. The handler of sets sorts
  the whole digest lists of the elements, so a set hashes alike in every iteration order. The
  handler of mappings sorts on the key digests alone: a mapping hashes alike in every
  iteration order when its key digests are pairwise different. With
  \<^verbatim>\<open>odict_as_unordered\<close>, an ordered mapping hashes as the dict of the same items when
  the keyword arguments make no difference to its keys and values.
\<close>

lemma all_results_of_mset:
  fixes rs :: "(error + 'a) list"
  assumes "all_results rs = Inr hs" "mset rs' = mset rs"
  shows "\<exists>hs'. all_results rs' = Inr hs' \<and> mset hs' = mset hs"
proof -
  from all_results_Inr [OF assms(1)] have rs: "rs = map Inr hs" .
  define hs' where "hs' = map projr rs'"
  have "set rs' = set rs" using assms(2) by (rule mset_eq_setD)
  then have "\<forall>r \<in> set rs'. \<exists>h. r = Inr h" using rs by auto
  then have rs': "rs' = map Inr hs'" unfolding hs'_def by (induction rs') auto
  from assms(2) rs rs' have "mset (map Inr hs' :: (error + 'a) list) = mset (map Inr hs)" by simp
  then have "image_mset (Inr :: 'a \<Rightarrow> error + 'a) (mset hs') = image_mset Inr (mset hs)" by simp
  then have "image_mset projr (image_mset (Inr :: 'a \<Rightarrow> error + 'a) (mset hs'))
      = image_mset projr (image_mset (Inr :: 'a \<Rightarrow> error + 'a) (mset hs))" by simp
  then have "mset hs' = mset hs" by (simp add: multiset.map_comp comp_def)
  with rs' show ?thesis by (auto simp: all_results_map_Inr)
qed

lemma set_order_independent:
  assumes "mset xs = mset ys" "make_hash_impl L kw (VSet xs) = Inr ds"
  shows "make_hash_impl L kw (VSet ys) = Inr ds"
proof -
  let ?f = "make_hash_impl L kw"
  from assms(2) obtain hs where hs: "all_results (map ?f xs) = Inr hs"
      and ds: "ds = [single_digest L ''set('' []] @ concat (sort hs) @ [END_DIGEST L]"
    by (auto simp: set_digests_def split: sum.splits)
  from assms(1) have "mset (map ?f ys) = mset (map ?f xs)" by simp
  from all_results_of_mset [OF hs this] obtain hs' where
    hs': "all_results (map ?f ys) = Inr hs'" "mset hs' = mset hs" by blast
  from hs'(2) have "sort hs' = sort hs" by (intro properties_for_sort) simp_all
  with hs'(1) ds show ?thesis by (simp add: set_digests_def)
qed

lemma zip_map_same: "zip (map a xs) (map b xs) = map (\<lambda>x. (a x, b x)) xs"
  by (induction xs) auto

lemma mapping_digests_of_mset:
  assumes "mset rs' = mset rs" "distinct (map fst rs)" "mapping_digests L rs = Inr ds"
  shows "mapping_digests L rs' = Inr ds"
proof -
  let ?G = "\<lambda>r :: (error + bytes list) \<times> (error + bytes list). (projr (fst r), snd r)"
  from assms(3) obtain ks where ks: "all_results (map fst rs) = Inr ks"
    by (cases "all_results (map fst rs)") (auto simp: mapping_digests_def)
  from all_results_Inr [OF ks] have fst_rs: "map fst rs = map Inr ks" .
  then have "map projr (map fst rs) = map projr (map Inr ks :: (error + bytes list) list)" by simp
  then have ks_eq: "ks = map (\<lambda>r. projr (fst r)) rs" by (simp add: comp_def)
  then have z: "zip ks (map snd rs) = map ?G rs" by (simp add: zip_map_same)
  from assms(1) have "mset (map fst rs') = mset (map fst rs)" by simp
  from all_results_of_mset [OF ks this] obtain ks' where
    ks': "all_results (map fst rs') = Inr ks'" by blast
  from all_results_Inr [OF ks'] have "map fst rs' = map Inr ks'" .
  then have "map projr (map fst rs') = map projr (map Inr ks' :: (error + bytes list) list)" by simp
  then have "ks' = map (\<lambda>r. projr (fst r)) rs'" by (simp add: comp_def)
  then have z': "zip ks' (map snd rs') = map ?G rs'" by (simp add: zip_map_same)
  from assms(2) fst_rs have "distinct (map Inr ks :: (error + bytes list) list)" by simp
  then have "distinct ks" by (simp add: distinct_map)
  then have "distinct (map fst (map ?G rs))" by (simp add: ks_eq comp_def)
  then have inj: "inj_on fst (set (map ?G rs))" by (simp only: distinct_map)
  from assms(1) have "mset (map ?G rs) = mset (map ?G rs')" by simp
  from sort_key_eq_sort_key [OF this inj] have "sort_key fst (map ?G rs) = sort_key fst (map ?G rs')" .
  with z z' have "sort_key fst (zip ks (map snd rs)) = sort_key fst (zip ks' (map snd rs'))" by simp
  with assms(3) ks ks' show ?thesis by (simp add: mapping_digests_def)
qed

lemma mapping_order_independent:
  assumes "mset kvs = mset kvs'"
      and "distinct (map (\<lambda>(k, v). make_hash_impl L kw k) kvs)"
      and "make_hash_impl L kw (VDict kvs) = Inr ds"
  shows "make_hash_impl L kw (VDict kvs') = Inr ds"
proof -
  let ?F = "\<lambda>(key, val). (make_hash_impl L kw key, make_hash_impl L kw val)"
  have e: "map fst (map ?F kvs) = map (\<lambda>(k, v). make_hash_impl L kw k) kvs"
    by (induction kvs) auto
  have d: "distinct (map fst (map ?F kvs))" unfolding e by (rule assms(2))
  from assms(1) have m: "mset (map ?F kvs') = mset (map ?F kvs)" by simp
  from assms(3) have "mapping_digests L (map ?F kvs) = Inr ds" by simp
  from mapping_digests_of_mset [OF m d this] show ?thesis by simp
qed

lemma odict_as_unordered_flat:
  assumes "odict_as_unordered kw"
      and "\<And>k v. (k, v) \<in> set kvs \<Longrightarrow>
             make_hash_impl L no_kwargs k = make_hash_impl L kw k
             \<and> make_hash_impl L no_kwargs v = make_hash_impl L kw v"
  shows "make_hash_impl L kw (VOrderedDict kvs) = make_hash_impl L kw (VDict kvs)"
proof -
  have h: "map (\<lambda>(key, val). (make_hash_impl L no_kwargs key, make_hash_impl L no_kwargs val)) kvs
        = map (\<lambda>(key, val). (make_hash_impl L kw key, make_hash_impl L kw val)) kvs"
    using assms(2) by (intro map_cong) auto
  show ?thesis by (simp only: make_hash_impl.simps assms(1) if_True h)
qed

end
